theory Spec2Isabelle
  imports Main "HOL-Library.Char_ord" "HOL-Library.Multiset"
begin

section \<open>Strings, errors and the built-ins of the host language\<close>

text \<open>
  A \<^typ>\<open>char\<close> stands for one UTF-16 code unit in the range 0..255 (ASCII and the
  Latin-1 supplement), a \<^typ>\<open>string\<close> for a JavaScript string made of such code units.
  Strings holding code units above 255 are outside the model.  BigInt values are
  \<^typ>\<open>int\<close>.  Every \<^verbatim>\<open>throw new Error(...)\<close> of the source is one constructor of
  \<open>error\<close>, carrying what the message interpolates; the two messages for a value without
  digits share the constructor \<open>EmptyValue\<close> and are told apart by the message text.
  \<open>TypeError\<close> is what the runtime raises when \<^verbatim>\<open>+=\<close> reads an array slot that does
  not exist (\<^verbatim>\<open>undefined + 1n\<close>).
\<close>

datatype error =
    InvalidBase string
  | EmptyValue string
  | InvalidDigitChar char
  | DigitOutOfRange char int
  | InvalidKeys nat
  | InsufficientRoots nat int nat
  | TypeError

text \<open>White space and line terminators among the code units below 256, as
  \<^verbatim>\<open>String.prototype.trim\<close> and \<^verbatim>\<open>parseInt\<close> skip them: TAB, LF, VT, FF, CR, SP, NBSP.\<close>

definition isWhiteSpace :: "char \<Rightarrow> bool" where
  "isWhiteSpace c = (of_char c \<in> {9, 10, 11, 12, 13, 32, 160 :: nat})"

definition trimStart :: "string \<Rightarrow> string" where
  "trimStart s = dropWhile isWhiteSpace s"

definition trimEnd :: "string \<Rightarrow> string" where
  "trimEnd s = rev (dropWhile isWhiteSpace (rev s))"

definition trim :: "string \<Rightarrow> string" where
  "trim s = trimEnd (trimStart s)"

text \<open>\<^verbatim>\<open>toLowerCase\<close> on one code unit below 256: \<open>A\<close>..\<open>Z\<close> and the capital letters of
  the Latin-1 supplement (192..222 without the multiplication sign 215) move up by 32.\<close>

definition toLowerCase_char :: "char \<Rightarrow> char" where
  "toLowerCase_char c =
     (let u = (of_char c :: nat)
      in if (65 \<le> u \<and> u \<le> 90) \<or> (192 \<le> u \<and> u \<le> 222 \<and> u \<noteq> 215)
         then char_of (u + 32) else c)"

definition toLowerCase :: "string \<Rightarrow> string" where
  "toLowerCase s = map toLowerCase_char s"

text \<open>
  \<^verbatim>\<open>parseInt(baseStr, 10)\<close>: skip leading white space, take an optional sign, then the
  longest prefix of decimal digits; no digit at all gives \<^verbatim>\<open>NaN\<close>, here \<open>None\<close>.  The
  result is a double in the source; it is only compared with 2 and 36 and converted to
  BigInt when it lies between them, where the double is exact, so an \<^typ>\<open>int\<close> stands
  for it.
\<close>

definition isDecDigit :: "char \<Rightarrow> bool" where
  "isDecDigit c = (CHR ''0'' \<le> c \<and> c \<le> CHR ''9'')"

definition decDigits :: "string \<Rightarrow> int" where
  "decDigits z = foldl (\<lambda>a c. a * 10 + (of_char c - of_char CHR ''0'')) 0 z"

definition parseInt :: "string \<Rightarrow> int option" where
  "parseInt inputString =
     (let s = trimStart inputString;
          sign = (if s \<noteq> [] \<and> hd s = CHR ''-'' then - 1 else 1 :: int);
          s' = (if s \<noteq> [] \<and> (hd s = CHR ''+'' \<or> hd s = CHR ''-'') then tl s else s);
          z = takeWhile isDecDigit s'
      in if z = [] then None else Some (sign * decDigits z))"

section \<open>The digit decoder\<close>

text \<open>\<^verbatim>\<open>charToDigit(ch)\<close>, for a string \<open>ch\<close> of one code unit.\<close>

definition charToDigit :: "char \<Rightarrow> error + int" where
  "charToDigit ch0 =
     (let ch = toLowerCase_char ch0
      in if CHR ''0'' \<le> ch \<and> ch \<le> CHR ''9'' then Inr (of_char ch - of_char CHR ''0'')
         else if CHR ''a'' \<le> ch \<and> ch \<le> CHR ''z'' then Inr (10 + (of_char ch - of_char CHR ''a''))
         else Inl (InvalidDigitChar ch))"

text \<open>The \<^verbatim>\<open>for\<close> loop of \<^verbatim>\<open>decodeBigInt\<close> over the characters left of \<open>s\<close>, with the
  accumulator \<open>acc\<close>.\<close>

fun decodeLoop :: "int \<Rightarrow> string \<Rightarrow> int \<Rightarrow> error + int" where
  "decodeLoop b [] acc = Inr acc"
| "decodeLoop b (c # cs) acc =
     (case charToDigit c of
        Inl e \<Rightarrow> Inl e
      | Inr d \<Rightarrow> if d \<ge> b then Inl (DigitOutOfRange c b)
                 else decodeLoop b cs (acc * b + d))"

definition decodeBigInt :: "string \<Rightarrow> string \<Rightarrow> error + int" where
  "decodeBigInt baseStr valueStr =
     (case parseInt baseStr of
        None \<Rightarrow> Inl (InvalidBase baseStr)
      | Some baseInt \<Rightarrow>
          if baseInt < 2 \<or> baseInt > 36 then Inl (InvalidBase baseStr)
          else
            let s = toLowerCase (trim valueStr)
            in if length s = 0 then Inl (EmptyValue ''Empty value string'')
               else if hd s = CHR ''+'' \<or> hd s = CHR ''-'' then
                 (let negative = (hd s = CHR ''-''); s1 = tl s
                  in if length s1 = 0 then Inl (EmptyValue ''Value is only sign, no digits'')
                     else map_sum id (\<lambda>acc. if negative then - acc else acc)
                            (decodeLoop baseInt s1 0))
               else decodeLoop baseInt s 0)"

section \<open>The polynomial synthesizer\<close>

text \<open>\<^verbatim>\<open>a[i] += v\<close> on an array of BigInt: inside the array the slot is updated; outside
  it the read gives \<^verbatim>\<open>undefined\<close> and the addition raises.\<close>

definition addAt :: "int list \<Rightarrow> nat \<Rightarrow> int \<Rightarrow> error + int list" where
  "addAt a i v = (if i < length a then Inr (a[i := a ! i + v]) else Inl TypeError)"

text \<open>The inner \<^verbatim>\<open>for\<close> loop of \<^verbatim>\<open>buildPolynomialFromRoots\<close>, from index \<open>i\<close> on.\<close>

function mulLoop :: "int \<Rightarrow> int list \<Rightarrow> nat \<Rightarrow> int list \<Rightarrow> error + int list" where
  "mulLoop r coeffs i newCoeffs =
     (if i < length coeffs then
        (case addAt newCoeffs i (- r * coeffs ! i) of
           Inl e \<Rightarrow> Inl e
         | Inr n1 \<Rightarrow>
             (case addAt n1 (i + 1) (coeffs ! i) of
                Inl e \<Rightarrow> Inl e
              | Inr n2 \<Rightarrow> mulLoop r coeffs (i + 1) n2))
      else Inr newCoeffs)"
  by pat_completeness auto
termination
  by (relation "measure (\<lambda>(r, coeffs, i, newCoeffs). length coeffs - i)") auto

declare mulLoop.simps [simp del]

text \<open>The outer loop \<^verbatim>\<open>for (const r of roots)\<close>, with the current \<open>coeffs\<close>.\<close>

fun rootsLoop :: "int list \<Rightarrow> int list \<Rightarrow> error + int list" where
  "rootsLoop [] coeffs = Inr coeffs"
| "rootsLoop (r # rs) coeffs =
     (case mulLoop r coeffs 0 (replicate (length coeffs + 1) 0) of
        Inl e \<Rightarrow> Inl e
      | Inr newCoeffs \<Rightarrow> rootsLoop rs newCoeffs)"

definition buildPolynomialFromRoots :: "int list \<Rightarrow> error + int list" where
  "buildPolynomialFromRoots roots = rootsLoop roots [1]"

section \<open>The synthesizer on a store of arrays\<close>

text \<open>
  Arrays are objects: a variable holds a reference, and a write through one reference is
  seen through every other.  The store is the list of all arrays allocated so far, an
  address is a position in it, and an address never allocated holds no element.
  \<^verbatim>\<open>new Array(n).fill(0n)\<close> and the literal \<^verbatim>\<open>[1n]\<close> allocate.
\<close>

type_synonym addr = nat
type_synonym store = "int list list"

definition arr :: "store \<Rightarrow> addr \<Rightarrow> int list" where
  "arr h a = (if a < length h then h ! a else [])"

definition alloc :: "int list \<Rightarrow> store \<Rightarrow> addr \<times> store" where
  "alloc xs h = (length h, h @ [xs])"

definition addAt_st :: "addr \<Rightarrow> nat \<Rightarrow> int \<Rightarrow> store \<Rightarrow> error + store" where
  "addAt_st a i v h =
     (case addAt (arr h a) i v of Inl e \<Rightarrow> Inl e | Inr xs \<Rightarrow> Inr (h[a := xs]))"

function mulLoop_st :: "int \<Rightarrow> addr \<Rightarrow> addr \<Rightarrow> nat \<Rightarrow> store \<Rightarrow> error + store" where
  "mulLoop_st r coeffs newCoeffs i h =
     (if i < length (arr h coeffs) then
        (case addAt_st newCoeffs i (- r * arr h coeffs ! i) h of
           Inl e \<Rightarrow> Inl e
         | Inr h1 \<Rightarrow>
             (case addAt_st newCoeffs (i + 1) (arr h1 coeffs ! i) h1 of
                Inl e \<Rightarrow> Inl e
              | Inr h2 \<Rightarrow> mulLoop_st r coeffs newCoeffs (i + 1) h2))
      else Inr h)"
  by pat_completeness auto
termination
proof (relation "measure (\<lambda>(r, coeffs, newCoeffs, i, h). length (arr h coeffs) - i)")
  show "wf (measure (\<lambda>(r, coeffs, newCoeffs, i, h). length (arr h coeffs) - i))"
    by simp
next
  fix r :: int and coeffs newCoeffs :: addr and i :: nat and h h1 h2 :: store
  assume i: "i < length (arr h coeffs)"
    and h1: "addAt_st newCoeffs i (- r * arr h coeffs ! i) h = Inr h1"
    and h2: "addAt_st newCoeffs (i + 1) (arr h1 coeffs ! i) h1 = Inr h2"
  have keep: "length (arr g' coeffs) = length (arr g coeffs)"
    if "addAt_st newCoeffs j v g = Inr g'" for j v g g'
    using that
    by (auto simp: addAt_st_def addAt_def arr_def nth_list_update
        split: sum.splits if_splits)
  have "length (arr h2 coeffs) = length (arr h coeffs)"
    using keep [OF h1] keep [OF h2] by simp
  with i show "((r, coeffs, newCoeffs, i + 1, h2), (r, coeffs, newCoeffs, i, h))
      \<in> measure (\<lambda>(r, coeffs, newCoeffs, i, h). length (arr h coeffs) - i)"
    by simp
qed

declare mulLoop_st.simps [simp del]

text \<open>The outer loop on the store: the array iterator of \<^verbatim>\<open>for (const r of roots)\<close>
  stands at index \<open>j\<close> and reads the length and the element of \<open>roots\<close> anew at every
  round; \<open>coeffs\<close> is the reference the variable of that name holds.\<close>

function rootsLoop_st :: "addr \<Rightarrow> nat \<Rightarrow> addr \<Rightarrow> store \<Rightarrow> error + (addr \<times> store)" where
  "rootsLoop_st roots j coeffs h =
     (if j < length (arr h roots) then
        (let r = arr h roots ! j;
             (newCoeffs, h1) = alloc (replicate (length (arr h coeffs) + 1) 0) h
         in case mulLoop_st r coeffs newCoeffs 0 h1 of
              Inl e \<Rightarrow> Inl e
            | Inr h2 \<Rightarrow> rootsLoop_st roots (j + 1) newCoeffs h2)
      else Inr (coeffs, h))"
  by pat_completeness auto
termination
proof (relation "measure (\<lambda>(roots, j, coeffs, h). length (arr h roots) - j)")
  show "wf (measure (\<lambda>(roots, j, coeffs, h). length (arr h roots) - j))"
    by simp
next
  fix roots coeffs newCoeffs :: addr and j :: nat and h h1 h2 :: store and r :: int
    and x :: "addr \<times> store"
  assume j: "j < length (arr h roots)"
    and r: "r = arr h roots ! j"
    and x: "x = alloc (replicate (length (arr h coeffs) + 1) 0) h"
    and nh: "(newCoeffs, h1) = x"
    and h2: "mulLoop_st r coeffs newCoeffs 0 h1 = Inr h2"
  have step: "length (arr g' a) = length (arr g a)"
    if "addAt_st n i v g = Inr g'" for n i v g g' a
    using that
    by (auto simp: addAt_st_def addAt_def arr_def nth_list_update
        split: sum.splits if_splits)
  have loop: "mulLoop_st q c n i g = Inr g' \<Longrightarrow> length (arr g' a) = length (arr g a)"
    for q c n i g g' a
  proof (induction q c n i g rule: mulLoop_st.induct)
    case (1 q c n i g)
    show ?case
    proof (cases "i < length (arr g c)")
      case False
      with "1.prems" show ?thesis by (simp add: mulLoop_st.simps [of q c n i g])
    next
      case True
      from True "1.prems" obtain g1 g2
        where g1: "addAt_st n i (- q * arr g c ! i) g = Inr g1"
          and g2: "addAt_st n (i + 1) (arr g1 c ! i) g1 = Inr g2"
          and rest: "mulLoop_st q c n (i + 1) g2 = Inr g'"
        by (auto simp: mulLoop_st.simps [of q c n i g] split: sum.splits)
      from "1.IH" [OF True g1 g2 rest] step [OF g1] step [OF g2]
      show ?thesis by simp
    qed
  qed
  from j have "roots < length h"
    by (auto simp: arr_def split: if_splits)
  with x nh have "arr h1 roots = arr h roots"
    by (auto simp: alloc_def arr_def nth_append)
  with loop [OF h2] have "length (arr h2 roots) = length (arr h roots)"
    by simp
  with j show "((roots, j + 1, newCoeffs, h2), (roots, j, coeffs, h))
      \<in> measure (\<lambda>(roots, j, coeffs, h). length (arr h roots) - j)"
    by simp
qed

declare rootsLoop_st.simps [simp del]

definition buildPolynomialFromRoots_st :: "addr \<Rightarrow> store \<Rightarrow> error + (addr \<times> store)" where
  "buildPolynomialFromRoots_st roots h =
     (let (coeffs, h0) = alloc [1] h in rootsLoop_st roots 0 coeffs h0)"

section \<open>Processing one test case\<close>

text \<open>
  A test case is the parsed JSON object: \<^verbatim>\<open>tc.keys\<close> with the fields \<open>n\<close> and \<open>k\<close>
  (\<open>None\<close> where the field is missing or not a number), and the entries under the keys
  \<^verbatim>\<open>"1"\<close>, \<^verbatim>\<open>"2"\<close>, ...; the key \<^verbatim>\<open>String(i)\<close> is represented by \<open>i\<close> itself.  An
  entry holds two strings.  What the function
  prints is left out; the texts \<^verbatim>\<open>r.toString()\<close> of the result are represented by the
  integers they denote.
\<close>

record keys =
  keys_n :: "int option"
  keys_k :: "int option"

record entry =
  entry_base :: string
  entry_value :: string

record testcase =
  tc_keys :: "keys option"
  tc_entries :: "int \<Rightarrow> entry option"

record summary =
  summary_n :: int
  summary_k :: int
  degree :: int
  usedRoots :: "int list"
  coeffs_low_to_high :: "int list"
  coeffs_high_to_low :: "int list"
  constant_c :: int

text \<open>
  The numbers \<open>n\<close>, \<open>k\<close> and the counter \<open>i\<close> are doubles in the source.  The model
  covers the doubles that are integers, each represented by the integer it denotes
  (\<^verbatim>\<open>NaN\<close>, the infinities and numbers with a fraction are outside the model).  A double
  holds 53 significant bits: the result of \<^verbatim>\<open>i++\<close> and of \<^verbatim>\<open>k - 1\<close> is the exact
  result rounded to the nearest double, a tie going to the even significand.  So every
  integer up to \<open>2\<^sup>5\<^sup>3\<close> in magnitude is exact, and \<open>2\<^sup>5\<^sup>3 + 1\<close> is rounded back to \<open>2\<^sup>5\<^sup>3\<close>.
  \<open>excessBits a\<close> is the number of bits of \<open>a\<close> beyond 53.  Lists stand for arrays;
  the length limit of arrays and the exhaustion of memory are not modelled.
\<close>

function excessBits :: "int \<Rightarrow> nat" where
  "excessBits a = (if a < 2 ^ 53 then 0 else Suc (excessBits (a div 2)))"
  by pat_completeness auto
termination
  by (relation "measure nat") auto

declare excessBits.simps [simp del]

definition roundToDouble :: "int \<Rightarrow> int" where
  "roundToDouble x =
     (let a = \<bar>x\<bar>;
          q = 2 ^ excessBits a;
          m = a div q;
          r = a mod q;
          m' = (if q < 2 * r \<or> (2 * r = q \<and> odd m) then m + 1 else m)
      in sgn x * (m' * q))"

text \<open>The loop \<^verbatim>\<open>for (let i = 1; i <= n; i++)\<close> that decodes every entry present.  The
  loop need not end (the counter stops growing at \<open>2\<^sup>5\<^sup>3\<close>): \<open>None\<close> is the run that never
  returns.\<close>

partial_function (option) decodeAll ::
  "testcase \<Rightarrow> int \<Rightarrow> int \<Rightarrow> int list \<Rightarrow> (error + int list) option" where
  "decodeAll tc i n roots =
     (if i \<le> n then
        (case tc_entries tc i of
           None \<Rightarrow> decodeAll tc (roundToDouble (i + 1)) n roots
         | Some e \<Rightarrow>
             (case decodeBigInt (entry_base e) (entry_value e) of
                Inl err \<Rightarrow> Some (Inl err)
              | Inr decoded \<Rightarrow> decodeAll tc (roundToDouble (i + 1)) n (roots @ [decoded])))
      else Some (Inr roots))"

declare decodeAll.simps [code]

text \<open>\<^verbatim>\<open>xs.slice(0, e)\<close>: a negative \<open>e\<close> counts from the end of the array.\<close>

definition slice0 :: "'a list \<Rightarrow> int \<Rightarrow> 'a list" where
  "slice0 xs e =
     (let len = int (length xs);
          final = (if e < 0 then max (len + e) 0 else min e len)
      in take (nat final) xs)"

text \<open>The result is \<open>None\<close> when the function never returns, \<open>Some (Inl e)\<close> when it
  throws and \<open>Some (Inr s)\<close> when it returns the summary \<open>s\<close>.\<close>

definition processSingleTestCase :: "testcase \<Rightarrow> nat \<Rightarrow> (error + summary) option" where
  "processSingleTestCase tc idx =
     (case tc_keys tc of
        None \<Rightarrow> Some (Inl (InvalidKeys (idx + 1)))
      | Some ks \<Rightarrow>
          (case (keys_n ks, keys_k ks) of
             (Some n, Some k) \<Rightarrow>
               (let deg = roundToDouble (k - 1)
                in case decodeAll tc 1 n [] of
                     None \<Rightarrow> None
                   | Some (Inl e) \<Rightarrow> Some (Inl e)
                   | Some (Inr roots) \<Rightarrow>
                       if int (length roots) < deg
                       then Some (Inl (InsufficientRoots (idx + 1) deg (length roots)))
                       else
                         (let used = slice0 roots deg
                          in case buildPolynomialFromRoots used of
                               Inl e \<Rightarrow> Some (Inl e)
                             | Inr coeffsLowToHigh \<Rightarrow>
                                 (case coeffsLowToHigh of
                                    [] \<Rightarrow> Some (Inl TypeError)
                                  | c # _ \<Rightarrow>
                                      Some (Inr \<lparr>summary_n = n, summary_k = k, degree = deg,
                                           usedRoots = used,
                                           coeffs_low_to_high = coeffsLowToHigh,
                                           coeffs_high_to_low = rev coeffsLowToHigh,
                                           constant_c = c\<rparr>))))
           | _ \<Rightarrow> Some (Inl (InvalidKeys (idx + 1)))))"

section \<open>Reference functions of the statements\<close>

text \<open>The product of a polynomial, given by its coefficients from the constant term
  upwards, with the linear factor \<open>x - r\<close>: the coefficients scaled by \<open>- r\<close>, plus the
  coefficients moved up by one index.\<close>

definition mulLinear :: "int \<Rightarrow> int list \<Rightarrow> int list" where
  "mulLinear r cs = map2 (+) (map (\<lambda>c. - r * c) cs @ [0]) (0 # cs)"

text \<open>The value of a digit character as the specification gives it: \<open>0\<close>..\<open>9\<close> are
  0..9, and \<open>a\<close>..\<open>z\<close> are 10..35 in either case.\<close>

definition digitValue :: "char \<Rightarrow> nat option" where
  "digitValue c =
     (let u = (of_char c :: nat)
      in if of_char CHR ''0'' \<le> u \<and> u \<le> of_char CHR ''9'' then Some (u - of_char CHR ''0'')
         else if of_char CHR ''a'' \<le> u \<and> u \<le> of_char CHR ''z'' then Some (u - of_char CHR ''a'' + 10)
         else if of_char CHR ''A'' \<le> u \<and> u \<le> of_char CHR ''Z'' then Some (u - of_char CHR ''A'' + 10)
         else None)"

text \<open>The candidate entries of a test case: the entries present under the keys 1 to
  \<open>n\<close>, in ascending order of the key.\<close>

definition candidates :: "testcase \<Rightarrow> int \<Rightarrow> entry list" where
  "candidates tc n = List.map_filter (tc_entries tc) [1..n]"

text \<open>The test case object with \<^verbatim>\<open>keys.n\<close>, \<^verbatim>\<open>keys.k\<close> and the entries given as
  triples of key, base and value, each key at most once.\<close>

definition mkCase :: "int \<Rightarrow> int \<Rightarrow> (int \<times> string \<times> string) list \<Rightarrow> testcase" where
  "mkCase n k es =
     \<lparr>tc_keys = Some \<lparr>keys_n = Some n, keys_k = Some k\<rparr>,
      tc_entries = map_of (map (\<lambda>(i, b, v). (i, \<lparr>entry_base = b, entry_value = v\<rparr>)) es)\<rparr>"

section \<open>Code units, white space and the decoding loop\<close>

lemma code_toLowerCase_char:
  "(of_char (toLowerCase_char c) :: nat) =
     (if (65 \<le> (of_char c :: nat) \<and> (of_char c :: nat) \<le> 90)
         \<or> (192 \<le> (of_char c :: nat) \<and> (of_char c :: nat) \<le> 222 \<and> (of_char c :: nat) \<noteq> 215)
      then of_char c + 32 else of_char c)"
  by (auto simp: toLowerCase_char_def Let_def)

lemma toLowerCase_char_idem: "toLowerCase_char (toLowerCase_char c) = toLowerCase_char c"
proof -
  have "(of_char (toLowerCase_char (toLowerCase_char c)) :: nat) = of_char (toLowerCase_char c)"
    by (simp add: code_toLowerCase_char [of "toLowerCase_char c"])
      (auto simp: code_toLowerCase_char [of c])
  then show ?thesis by simp
qed

lemma charToDigit_code:
  "charToDigit c =
     (let u = (of_char (toLowerCase_char c) :: nat)
      in if 48 \<le> u \<and> u \<le> 57 then Inr (int u - 48)
         else if 97 \<le> u \<and> u \<le> 122 then Inr (int u - 87)
         else Inl (InvalidDigitChar (toLowerCase_char c)))"
proof -
  have "(of_char (toLowerCase_char c) :: int) = int (of_char (toLowerCase_char c))"
    by (simp add: of_nat_of_char)
  then show ?thesis
    by (simp add: charToDigit_def Let_def less_eq_char_def)
qed

lemma toLowerCase_char_eq_code:
  "toLowerCase_char c = d \<longleftrightarrow> (of_char (toLowerCase_char c) :: nat) = of_char d"
  by simp

lemma toLowerCase_char_minus [simp]: "toLowerCase_char c = CHR ''-'' \<longleftrightarrow> c = CHR ''-''"
proof
  assume "toLowerCase_char c = CHR ''-''"
  then have "(of_char (toLowerCase_char c) :: nat) = 45"
    by simp
  then have "(of_char c :: nat) = of_char CHR ''-''"
    by (simp add: code_toLowerCase_char split: if_splits)
  then show "c = CHR ''-''"
    by (simp only: of_char_eq_iff)
next
  assume "c = CHR ''-''"
  then show "toLowerCase_char c = CHR ''-''"
    by (simp add: toLowerCase_char_def)
qed

lemma toLowerCase_char_plus [simp]: "toLowerCase_char c = CHR ''+'' \<longleftrightarrow> c = CHR ''+''"
proof
  assume "toLowerCase_char c = CHR ''+''"
  then have "(of_char (toLowerCase_char c) :: nat) = 43"
    by simp
  then have "(of_char c :: nat) = of_char CHR ''+''"
    by (simp add: code_toLowerCase_char split: if_splits)
  then show "c = CHR ''+''"
    by (simp only: of_char_eq_iff)
next
  assume "c = CHR ''+''"
  then show "toLowerCase_char c = CHR ''+''"
    by (simp add: toLowerCase_char_def)
qed

lemma toLowerCase_char_zero [simp]: "toLowerCase_char CHR ''0'' = CHR ''0''"
  by (simp add: toLowerCase_char_def)

lemma charToDigit_zero [simp]: "charToDigit CHR ''0'' = Inr 0"
  by (simp add: charToDigit_code)

lemma digitValue_charToDigit:
  assumes "digitValue c = Some d"
  shows "charToDigit (toLowerCase_char c) = Inr (int d)"
proof -
  have idem: "(of_char (toLowerCase_char (toLowerCase_char c)) :: nat) = of_char (toLowerCase_char c)"
    by (simp add: toLowerCase_char_idem)
  from assms show ?thesis
    unfolding charToDigit_code Let_def idem
    by (auto simp: digitValue_def Let_def code_toLowerCase_char split: if_splits)
qed

lemma digitValue_not_white: "digitValue c = Some d \<Longrightarrow> \<not> isWhiteSpace c"
  by (auto simp: digitValue_def Let_def isWhiteSpace_def split: if_splits)

lemma digitValue_not_sign: "digitValue c = Some d \<Longrightarrow> c \<noteq> CHR ''+'' \<and> c \<noteq> CHR ''-''"
  by (auto simp: digitValue_def Let_def split: if_splits)

lemma sign_not_white [simp]: "\<not> isWhiteSpace CHR ''+''" "\<not> isWhiteSpace CHR ''-''"
  "\<not> isWhiteSpace CHR ''0''"
  by (simp_all add: isWhiteSpace_def)

lemma trimStart_Cons: "\<not> isWhiteSpace x \<Longrightarrow> trimStart (x # s) = x # s"
  by (simp add: trimStart_def)

lemma trimEnd_Cons: "\<not> isWhiteSpace x \<Longrightarrow> trimEnd (x # s) = x # trimEnd s"
  by (simp add: trimEnd_def dropWhile_append)


lemma trimEnd_id: "s \<noteq> [] \<Longrightarrow> \<not> isWhiteSpace (last s) \<Longrightarrow> trimEnd s = s"
  by (cases s rule: rev_cases) (simp_all add: trimEnd_def)

lemma trim_Cons: "\<not> isWhiteSpace x \<Longrightarrow> trim (x # s) = x # trimEnd s"
  by (simp add: trim_def trimStart_Cons trimEnd_Cons)


lemma decodeLoop_digits:
  "map digitValue ds = map Some vs \<Longrightarrow> \<forall>v\<in>set vs. int v < b \<Longrightarrow>
   decodeLoop b (map toLowerCase_char ds) acc = Inr (foldl (\<lambda>a v. a * b + int v) acc vs)"
proof (induction ds arbitrary: vs acc)
  case Nil
  then show ?case by simp
next
  case (Cons c ds)
  then obtain v vs' where vs: "vs = v # vs'" "digitValue c = Some v"
    "map digitValue ds = map Some vs'"
    by (cases vs) auto
  with Cons.prems have "int v < b" "\<forall>v\<in>set vs'. int v < b"
    by auto
  with Cons.IH [OF vs(3)] vs show ?case
    by (simp add: digitValue_charToDigit)
qed


lemma decodeBigInt_Inr_base:
  "decodeBigInt baseStr s = Inr v \<Longrightarrow> \<exists>b. parseInt baseStr = Some b \<and> 2 \<le> b \<and> b \<le> 36"
  by (cases "parseInt baseStr") (auto simp: decodeBigInt_def split: if_splits)


lemma decodeBigInt_unsigned:
  assumes "parseInt baseStr = Some b" "2 \<le> b" "b \<le> 36"
    and "\<not> isWhiteSpace c" "c \<noteq> CHR ''+''" "c \<noteq> CHR ''-''"
  shows "decodeBigInt baseStr (c # cs) = decodeLoop b (toLowerCase (c # trimEnd cs)) 0"
  using assms by (simp add: decodeBigInt_def trim_Cons toLowerCase_def)

lemma decodeBigInt_signed:
  assumes "parseInt baseStr = Some b" "2 \<le> b" "b \<le> 36"
    and "sg = CHR ''+'' \<or> sg = CHR ''-''" "trimEnd cs \<noteq> []"
  shows "decodeBigInt baseStr (sg # cs) =
     map_sum id (\<lambda>acc. if sg = CHR ''-'' then - acc else acc)
       (decodeLoop b (toLowerCase (trimEnd cs)) 0)"
proof -
  from assms(4) have nw: "\<not> isWhiteSpace sg" and low: "toLowerCase_char sg = sg"
    by (auto simp: toLowerCase_char_def)
  from assms(1-3) assms(4) assms(5) show ?thesis
    by (simp add: decodeBigInt_def trim_Cons [OF nw] toLowerCase_def low)
qed

section \<open>The inner loop multiplies by a linear factor\<close>

lemma length_mulLinear [simp]: "length (mulLinear r cs) = length cs + 1"
  by (simp add: mulLinear_def)

lemma nth_mulLinear:
  "j \<le> length cs \<Longrightarrow>
   mulLinear r cs ! j =
     (if j < length cs then - r * cs ! j else 0) + (if 0 < j then cs ! (j - 1) else 0)"
  by (cases j) (simp_all add: mulLinear_def nth_append)

lemma mulLoop_inv:
  "length nw = length cs + 1 \<Longrightarrow> i \<le> length cs \<Longrightarrow>
   \<exists>res. mulLoop r cs i nw = Inr res \<and> length res = length cs + 1 \<and>
     (\<forall>j\<le>length cs. res ! j = nw ! j
        + (if i \<le> j \<and> j < length cs then - r * cs ! j else 0)
        + (if i < j then cs ! (j - 1) else 0))"
proof (induction r cs i nw rule: mulLoop.induct)
  case (1 r coeffs i newCoeffs)
  show ?case
  proof (cases "i < length coeffs")
    case False
    then have "mulLoop r coeffs i newCoeffs = Inr newCoeffs"
      by (subst mulLoop.simps) simp
    with False "1.prems" show ?thesis
      by simp
  next
    case True
    define n1 where "n1 = newCoeffs[i := newCoeffs ! i + - r * coeffs ! i]"
    define n2 where "n2 = n1[i + 1 := n1 ! (i + 1) + coeffs ! i]"
    have a1: "addAt newCoeffs i (- r * coeffs ! i) = Inr n1"
      using True "1.prems" by (simp add: addAt_def n1_def)
    have a2: "addAt n1 (i + 1) (coeffs ! i) = Inr n2"
      using True "1.prems" by (simp add: addAt_def n1_def n2_def)
    have len: "length n2 = length coeffs + 1"
      using "1.prems" by (simp add: n1_def n2_def)
    from "1.IH" [OF True a1 a2 len] True
    obtain res where res: "mulLoop r coeffs (i + 1) n2 = Inr res"
      "length res = length coeffs + 1"
      "\<forall>j\<le>length coeffs. res ! j = n2 ! j
        + (if i + 1 \<le> j \<and> j < length coeffs then - r * coeffs ! j else 0)
        + (if i + 1 < j then coeffs ! (j - 1) else 0)"
      by auto
    have unfold: "mulLoop r coeffs i newCoeffs = Inr res"
      using True a1 a2 res(1) by (simp add: mulLoop.simps [of r coeffs i newCoeffs])
    have "res ! j = newCoeffs ! j
        + (if i \<le> j \<and> j < length coeffs then - r * coeffs ! j else 0)
        + (if i < j then coeffs ! (j - 1) else 0)" if "j \<le> length coeffs" for j
    proof -
      have n2j: "n2 ! j = newCoeffs ! j + (if j = i then - r * coeffs ! i else 0)
          + (if j = i + 1 then coeffs ! i else 0)"
        using that True "1.prems" by (auto simp: n1_def n2_def nth_list_update)
      from res(3) that have rj: "res ! j = n2 ! j
          + (if i + 1 \<le> j \<and> j < length coeffs then - r * coeffs ! j else 0)
          + (if i + 1 < j then coeffs ! (j - 1) else 0)"
        by blast
      consider "j < i" | "j = i" | "j = i + 1" | "i + 1 < j"
        by linarith
      then show ?thesis
        using rj n2j True by cases simp_all
    qed
    with unfold res(2) show ?thesis by blast
  qed
qed

lemma mulLoop_mulLinear:
  "mulLoop r cs 0 (replicate (length cs + 1) 0) = Inr (mulLinear r cs)"
proof -
  from mulLoop_inv [of "replicate (length cs + 1) 0" cs 0 r]
  obtain res where res: "mulLoop r cs 0 (replicate (length cs + 1) 0) = Inr res"
    "length res = length cs + 1"
    "\<forall>j\<le>length cs. res ! j = replicate (length cs + 1) 0 ! j
        + (if 0 \<le> j \<and> j < length cs then - r * cs ! j else 0)
        + (if 0 < j then cs ! (j - 1) else 0)"
    by auto
  have "res = mulLinear r cs"
  proof (rule nth_equalityI)
    show "length res = length (mulLinear r cs)" using res(2) by simp
  next
    fix j assume "j < length res"
    then have j: "j \<le> length cs" using res(2) by simp
    then have "replicate (length cs + 1) 0 ! j = (0::int)"
      by (simp only: nth_replicate less_Suc_eq_le Suc_eq_plus1 [symmetric])
    with j show "res ! j = mulLinear r cs ! j"
      using res(3) by (simp add: nth_mulLinear del: replicate_Suc)
  qed
  with res(1) show ?thesis by simp
qed

lemma rootsLoop_fold: "rootsLoop rs cs = Inr (fold mulLinear rs cs)"
proof (induction rs arbitrary: cs)
  case Nil
  show ?case by simp
next
  case (Cons r rs)
  have "rootsLoop (r # rs) cs = rootsLoop rs (mulLinear r cs)"
    by (simp only: rootsLoop.simps mulLoop_mulLinear sum.case)
  with Cons show ?case by simp
qed

lemma build_fold: "buildPolynomialFromRoots rs = Inr (fold mulLinear rs [1])"
  by (simp add: buildPolynomialFromRoots_def rootsLoop_fold)

lemma length_fold_mulLinear: "length (fold mulLinear rs cs) = length cs + length rs"
  by (induction rs arbitrary: cs) simp_all

lemma mulLinear_nonempty [simp]: "mulLinear r cs \<noteq> []"
  by (simp add: mulLinear_def)

lemma last_mulLinear: "cs \<noteq> [] \<Longrightarrow> last (mulLinear r cs) = last cs"
  by (simp add: last_conv_nth nth_mulLinear)


lemma last_fold_mulLinear: "cs \<noteq> [] \<Longrightarrow> last (fold mulLinear rs cs) = last cs"
proof (induction rs arbitrary: cs)
  case Nil
  then show ?case by simp
next
  case (Cons r rs)
  from Cons show ?case by (simp add: last_mulLinear)
qed

lemma hd_mulLinear: "cs \<noteq> [] \<Longrightarrow> mulLinear r cs ! 0 = - r * cs ! 0"
  by (simp add: nth_mulLinear)

lemma nth0_fold_mulLinear:
  "cs \<noteq> [] \<Longrightarrow> fold mulLinear rs cs ! 0 = (- 1) ^ length rs * prod_list rs * cs ! 0"
proof (induction rs arbitrary: cs)
  case Nil
  then show ?case by simp
next
  case (Cons r rs)
  from Cons show ?case by (simp add: hd_mulLinear)
qed

lemma mulLinear_commute: "mulLinear r (mulLinear q cs) = mulLinear q (mulLinear r cs)"
proof (rule nth_equalityI)
  show "length (mulLinear r (mulLinear q cs)) = length (mulLinear q (mulLinear r cs))"
    by simp
next
  fix j assume "j < length (mulLinear r (mulLinear q cs))"
  then have j: "j \<le> length cs + 1" by simp
  show "mulLinear r (mulLinear q cs) ! j = mulLinear q (mulLinear r cs) ! j"
    using j by (auto simp: nth_mulLinear algebra_simps)
qed

lemma fold_mulLinear_mset:
  "mset rs = mset rs' \<Longrightarrow> fold mulLinear rs cs = fold mulLinear rs' cs"
  by (rule fold_multiset_equiv [THEN fun_cong]) (auto simp: fun_eq_iff mulLinear_commute)

section \<open>The loops on the store refine the loops on lists\<close>

lemma arr_update_same: "a < length h \<Longrightarrow> arr (h[a := xs]) a = xs"
  by (simp add: arr_def)

lemma arr_update_other: "b \<noteq> a \<Longrightarrow> arr (h[a := xs]) b = arr h b"
  by (simp add: arr_def)

lemma arr_append_old: "a < length h \<Longrightarrow> arr (h @ [xs]) a = arr h a"
  by (simp add: arr_def nth_append)

lemma arr_append_new: "arr (h @ [xs]) (length h) = xs"
  by (simp add: arr_def)

lemma mulLoop_st_refines:
  "c \<noteq> nw \<Longrightarrow> nw < length h \<Longrightarrow>
   mulLoop_st r c nw i h = map_sum id (\<lambda>res. h[nw := res]) (mulLoop r (arr h c) i (arr h nw))"
proof (induction r c nw i h rule: mulLoop_st.induct)
  case (1 r coeffs newCoeffs i h)
  note neq = \<open>coeffs \<noteq> newCoeffs\<close> and valid = \<open>newCoeffs < length h\<close>
  show ?case
  proof (cases "i < length (arr h coeffs)")
    case False
    then show ?thesis
      using valid
      by (subst mulLoop_st.simps, subst mulLoop.simps) (simp add: arr_def)
  next
    case True
    show ?thesis
    proof (cases "addAt (arr h newCoeffs) i (- r * arr h coeffs ! i)")
      case (Inl e)
      with True show ?thesis
        by (subst mulLoop_st.simps, subst mulLoop.simps) (simp add: addAt_st_def)
    next
      case n1: (Inr n1)
      let ?h1 = "h[newCoeffs := n1]"
      have h1: "addAt_st newCoeffs i (- r * arr h coeffs ! i) h = Inr ?h1"
        using n1 by (simp add: addAt_st_def)
      have c1: "arr ?h1 coeffs = arr h coeffs" and w1: "arr ?h1 newCoeffs = n1"
        using neq valid by (simp_all add: arr_update_other arr_update_same)
      show ?thesis
      proof (cases "addAt n1 (i + 1) (arr h coeffs ! i)")
        case (Inl e)
        with True n1 h1 c1 w1 show ?thesis
          by (subst mulLoop_st.simps, subst mulLoop.simps) (simp add: addAt_st_def)
      next
        case n2: (Inr n2)
        let ?h2 = "h[newCoeffs := n2]"
        have h2: "addAt_st newCoeffs (i + 1) (arr ?h1 coeffs ! i) ?h1 = Inr ?h2"
          using n2 c1 w1 by (simp add: addAt_st_def)
        have c2: "arr ?h2 coeffs = arr h coeffs" and w2: "arr ?h2 newCoeffs = n2"
          using neq valid by (simp_all add: arr_update_other arr_update_same)
        have "mulLoop_st r coeffs newCoeffs (i + 1) ?h2 =
            map_sum id (\<lambda>res. ?h2[newCoeffs := res])
              (mulLoop r (arr ?h2 coeffs) (i + 1) (arr ?h2 newCoeffs))"
          using valid by (intro "1.IH" [OF True h1 h2 neq]) simp
        then have rest: "mulLoop_st r coeffs newCoeffs (i + 1) ?h2 =
            map_sum id (\<lambda>res. h[newCoeffs := res]) (mulLoop r (arr h coeffs) (i + 1) n2)"
          by (simp add: c2 w2)
        have st: "mulLoop_st r coeffs newCoeffs i h = mulLoop_st r coeffs newCoeffs (i + 1) ?h2"
          using True h1 h2 by (subst mulLoop_st.simps) simp
        have pu: "mulLoop r (arr h coeffs) i (arr h newCoeffs) =
            mulLoop r (arr h coeffs) (i + 1) n2"
          using True n1 n2 by (subst mulLoop.simps) simp
        show ?thesis
          by (simp only: st pu rest)
      qed
    qed
  qed
qed

lemma mulLoop_st_fresh:
  assumes "coeffs < length h"
  shows "mulLoop_st r coeffs (length h) 0 (h @ [replicate (length (arr h coeffs) + 1) 0]) =
     Inr (h @ [mulLinear r (arr h coeffs)])"
proof -
  let ?h1 = "h @ [replicate (length (arr h coeffs) + 1) 0]"
  have "mulLoop_st r coeffs (length h) 0 ?h1 =
      map_sum id (\<lambda>res. ?h1[length h := res])
        (mulLoop r (arr ?h1 coeffs) 0 (arr ?h1 (length h)))"
    using assms by (intro mulLoop_st_refines) simp_all
  also have "arr ?h1 coeffs = arr h coeffs"
    using assms by (rule arr_append_old)
  also have "arr ?h1 (length h) = replicate (length (arr h coeffs) + 1) 0"
    by (rule arr_append_new)
  finally show ?thesis
    by (simp only: mulLoop_mulLinear map_sum.simps list_update_length)
qed

lemma rootsLoop_st_spec:
  "roots < length h \<Longrightarrow> coeffs < length h \<Longrightarrow>
   \<exists>res h'. rootsLoop_st roots j coeffs h = Inr (res, h')
     \<and> length h \<le> length h' \<and> (\<forall>a<length h. arr h' a = arr h a)
     \<and> res < length h' \<and> (res = coeffs \<or> length h \<le> res)
     \<and> arr h' res = fold mulLinear (drop j (arr h roots)) (arr h coeffs)"
proof (induction roots j coeffs h rule: rootsLoop_st.induct)
  case (1 roots j coeffs h)
  note roots = \<open>roots < length h\<close> and coeffs = \<open>coeffs < length h\<close>
  show ?case
  proof (cases "j < length (arr h roots)")
    case False
    then have "rootsLoop_st roots j coeffs h = Inr (coeffs, h)"
      by (subst rootsLoop_st.simps) simp
    with False coeffs show ?thesis
      by simp
  next
    case True
    let ?r = "arr h roots ! j"
    let ?z = "replicate (length (arr h coeffs) + 1) (0::int)"
    let ?h1 = "h @ [?z]"
    let ?h2 = "h @ [mulLinear ?r (arr h coeffs)]"
    have al: "alloc ?z h = (length h, ?h1)"
      by (simp add: alloc_def)
    have ml: "mulLoop_st ?r coeffs (length h) 0 ?h1 = Inr ?h2"
      using coeffs by (rule mulLoop_st_fresh)
    have unfold: "rootsLoop_st roots j coeffs h = rootsLoop_st roots (j + 1) (length h) ?h2"
      using True al ml by (subst rootsLoop_st.simps) (simp del: replicate_Suc)
    have "\<exists>res h'. rootsLoop_st roots (j + 1) (length h) ?h2 = Inr (res, h')
       \<and> length ?h2 \<le> length h' \<and> (\<forall>a<length ?h2. arr h' a = arr ?h2 a)
       \<and> res < length h' \<and> (res = length h \<or> length ?h2 \<le> res)
       \<and> arr h' res = fold mulLinear (drop (j + 1) (arr ?h2 roots)) (arr ?h2 (length h))"
      using roots by (intro "1.IH" [OF True refl al [symmetric] refl ml]) simp_all
    then obtain res h' where ih:
      "rootsLoop_st roots (j + 1) (length h) ?h2 = Inr (res, h')"
      "length ?h2 \<le> length h'" "\<forall>a<length ?h2. arr h' a = arr ?h2 a"
      "res < length h'" "res = length h \<or> length ?h2 \<le> res"
      "arr h' res = fold mulLinear (drop (j + 1) (arr ?h2 roots)) (arr ?h2 (length h))"
      by blast
    have old: "arr h' a = arr h a" if "a < length h" for a
      using ih(3) that by (simp add: arr_append_old)
    have "arr h' res = fold mulLinear (drop (j + 1) (arr h roots)) (mulLinear ?r (arr h coeffs))"
      using ih(6) roots by (simp add: arr_append_old arr_append_new)
    also have "\<dots> = fold mulLinear (drop j (arr h roots)) (arr h coeffs)"
      using True by (simp add: Cons_nth_drop_Suc [symmetric])
    finally have val: "arr h' res = fold mulLinear (drop j (arr h roots)) (arr h coeffs)" .
    from ih(2) have "length h \<le> length h'"
      by simp
    moreover from ih(5) have "length h \<le> res"
      by auto
    ultimately show ?thesis
      using unfold ih(1) ih(4) old val by auto
  qed
qed


section \<open>The loop over the entries of a test case\<close>

lemma excessBits_small: "a < 2 ^ 53 \<Longrightarrow> excessBits a = 0"
  by (subst excessBits.simps) simp

lemma roundToDouble_small: "\<bar>x\<bar> < 2 ^ 53 \<Longrightarrow> roundToDouble x = x"
proof -
  assume "\<bar>x\<bar> < 2 ^ 53"
  then have "excessBits \<bar>x\<bar> = 0"
    by (rule excessBits_small)
  then show ?thesis
    by (simp add: roundToDouble_def Let_def sgn_if)
qed

lemma roundToDouble_limit: "roundToDouble (2 ^ 53) = 2 ^ 53"
  by code_simp

lemma roundToDouble_stuck: "roundToDouble (2 ^ 53 + 1) = 2 ^ 53"
  by code_simp

lemma roundToDouble_exact: "0 \<le> x \<Longrightarrow> x \<le> 2 ^ 53 \<Longrightarrow> roundToDouble x = x"
  using roundToDouble_small [of x] roundToDouble_limit by (cases "x = 2 ^ 53") auto

lemma map_filter_upto:
  "i \<le> n \<Longrightarrow> List.map_filter f [i..n] =
     (case f i of None \<Rightarrow> List.map_filter f [i + 1..n] | Some e \<Rightarrow> e # List.map_filter f [i + 1..n])"
  by (subst upto.simps) simp

lemma length_map_filter_le: "length (List.map_filter f xs) \<le> length xs"
  by (induction xs) (auto simp: split: option.splits)

lemma decodeAll_success:
  assumes "n < 2 ^ 53"
  shows "0 \<le> i \<Longrightarrow>
   map (\<lambda>e. decodeBigInt (entry_base e) (entry_value e)) (List.map_filter (tc_entries tc) [i..n])
     = map Inr vs \<Longrightarrow>
   decodeAll tc i n roots = Some (Inr (roots @ vs))"
proof (induction "nat (n + 1 - i)" arbitrary: i roots vs)
  case 0
  then have "\<not> i \<le> n"
    by simp
  with "0.prems" show ?case
    by (subst decodeAll.simps) simp
next
  case (Suc m)
  then have le: "i \<le> n" and m: "m = nat (n + 1 - (i + 1))"
    by simp_all
  from le assms Suc.prems(1) have next_i: "roundToDouble (i + 1) = i + 1"
    by (intro roundToDouble_exact) simp_all
  from Suc.prems(1) have pos: "0 \<le> i + 1"
    by simp
  show ?case
  proof (cases "tc_entries tc i")
    case None
    with le Suc.prems have "map (\<lambda>e. decodeBigInt (entry_base e) (entry_value e))
        (List.map_filter (tc_entries tc) [i + 1..n]) = map Inr vs"
      by (simp add: map_filter_upto)
    from Suc.hyps(1) [OF m pos this] le None next_i show ?thesis
      by (subst decodeAll.simps) simp
  next
    case (Some e)
    with le Suc.prems obtain v vs' where vs: "vs = v # vs'"
      "decodeBigInt (entry_base e) (entry_value e) = Inr v"
      "map (\<lambda>e. decodeBigInt (entry_base e) (entry_value e))
        (List.map_filter (tc_entries tc) [i + 1..n]) = map Inr vs'"
      by (cases vs) (auto simp: map_filter_upto)
    from Suc.hyps(1) [OF m pos vs(3)] le Some vs(1,2) next_i show ?thesis
      by (subst decodeAll.simps) simp
  qed
qed

lemma decodeAll_failure:
  assumes "n < 2 ^ 53"
  shows "0 \<le> i \<Longrightarrow>
   e \<in> set (List.map_filter (tc_entries tc) [i..n]) \<Longrightarrow>
   decodeBigInt (entry_base e) (entry_value e) = Inl err \<Longrightarrow>
   \<exists>err'. decodeAll tc i n roots = Some (Inl err')"
proof (induction "nat (n + 1 - i)" arbitrary: i roots)
  case 0
  then have "\<not> i \<le> n"
    by simp
  with "0.prems" show ?case
    by simp
next
  case (Suc m)
  then have le: "i \<le> n" and m: "m = nat (n + 1 - (i + 1))"
    by simp_all
  from le assms Suc.prems(1) have next_i: "roundToDouble (i + 1) = i + 1"
    by (intro roundToDouble_exact) simp_all
  from Suc.prems(1) have pos: "0 \<le> i + 1"
    by simp
  show ?case
  proof (cases "tc_entries tc i")
    case None
    with le Suc.prems have "e \<in> set (List.map_filter (tc_entries tc) [i + 1..n])"
      by (simp add: map_filter_upto)
    from Suc.hyps(1) [OF m pos this Suc.prems(3)] le None next_i show ?thesis
      by (subst decodeAll.simps) simp
  next
    case (Some e')
    show ?thesis
    proof (cases "decodeBigInt (entry_base e') (entry_value e')")
      case (Inl err')
      with le Some show ?thesis
        by (subst decodeAll.simps) simp
    next
      case (Inr v)
      with Some le Suc.prems have "e \<in> set (List.map_filter (tc_entries tc) [i + 1..n])"
        by (auto simp: map_filter_upto)
      from Suc.hyps(1) [OF m pos this Suc.prems(3)] le Some Inr next_i show ?thesis
        by (subst decodeAll.simps) simp
    qed
  qed
qed

lemma slice0_take: "0 \<le> e \<Longrightarrow> e \<le> int (length xs) \<Longrightarrow> slice0 xs e = take (nat e) xs"
  by (simp add: slice0_def Let_def min_def)

text \<open>From \<open>n = 2\<^sup>5\<^sup>3\<close> on the counter cannot pass \<open>n\<close>: unless an entry fails to
  decode, the loop, and with it the function, never returns.\<close>

lemma decodeAll_returns_bounded:
  assumes "decodeAll tc i n roots = Some y"
  shows "\<not> (2 ^ 53 \<le> n \<and> 0 \<le> i \<and> i \<le> 2 ^ 53
      \<and> (\<forall>j e. tc_entries tc j = Some e
            \<longrightarrow> \<not> isl (decodeBigInt (entry_base e) (entry_value e))))"
proof (rule decodeAll.raw_induct [where P = "\<lambda>tc i n roots y.
      \<not> (2 ^ 53 \<le> n \<and> 0 \<le> i \<and> i \<le> 2 ^ 53
        \<and> (\<forall>j e. tc_entries tc j = Some e
            \<longrightarrow> \<not> isl (decodeBigInt (entry_base e) (entry_value e))))", OF _ assms])
  fix loop :: "testcase \<Rightarrow> int \<Rightarrow> int \<Rightarrow> int list \<Rightarrow> (error + int list) option"
    and tc i n roots y
  assume IH: "\<And>tc i n roots y. loop tc i n roots = Some y \<Longrightarrow>
      \<not> (2 ^ 53 \<le> n \<and> 0 \<le> i \<and> i \<le> 2 ^ 53
        \<and> (\<forall>j e. tc_entries tc j = Some e
            \<longrightarrow> \<not> isl (decodeBigInt (entry_base e) (entry_value e))))"
    and body: "(if i \<le> n then
        (case tc_entries tc i of
           None \<Rightarrow> loop tc (roundToDouble (i + 1)) n roots
         | Some e \<Rightarrow>
             (case decodeBigInt (entry_base e) (entry_value e) of
                Inl err \<Rightarrow> Some (Inl err)
              | Inr decoded \<Rightarrow> loop tc (roundToDouble (i + 1)) n (roots @ [decoded])))
      else Some (Inr roots)) = Some y"
  show "\<not> (2 ^ 53 \<le> n \<and> 0 \<le> i \<and> i \<le> 2 ^ 53
      \<and> (\<forall>j e. tc_entries tc j = Some e
            \<longrightarrow> \<not> isl (decodeBigInt (entry_base e) (entry_value e))))"
  proof
    assume pre: "2 ^ 53 \<le> n \<and> 0 \<le> i \<and> i \<le> 2 ^ 53
      \<and> (\<forall>j e. tc_entries tc j = Some e
            \<longrightarrow> \<not> isl (decodeBigInt (entry_base e) (entry_value e)))"
    then have le: "i \<le> n"
      by simp
    have "roundToDouble (i + 1) = (if i = 2 ^ 53 then 2 ^ 53 else i + 1)"
      using pre roundToDouble_stuck roundToDouble_exact [of "i + 1"] by auto
    with pre have nxt: "0 \<le> roundToDouble (i + 1)" "roundToDouble (i + 1) \<le> 2 ^ 53"
      by (auto split: if_splits)
    from nxt pre have pre': "2 ^ 53 \<le> n \<and> 0 \<le> roundToDouble (i + 1)
      \<and> roundToDouble (i + 1) \<le> 2 ^ 53
      \<and> (\<forall>j e. tc_entries tc j = Some e
            \<longrightarrow> \<not> isl (decodeBigInt (entry_base e) (entry_value e)))"
      by simp
    show False
    proof (cases "tc_entries tc i")
      case None
      with le body have "loop tc (roundToDouble (i + 1)) n roots = Some y"
        by simp
      from IH [OF this] pre' show False
        by blast
    next
      case (Some e)
      with pre have "\<not> isl (decodeBigInt (entry_base e) (entry_value e))"
        by blast
      then obtain v where v: "decodeBigInt (entry_base e) (entry_value e) = Inr v"
        by (cases "decodeBigInt (entry_base e) (entry_value e)") simp_all
      with Some le body have "loop tc (roundToDouble (i + 1)) n (roots @ [v]) = Some y"
        by simp
      from IH [OF this] pre' show False
        by blast
    qed
  qed
qed

lemma decodeAll_never_returns:
  assumes "2 ^ 53 \<le> n"
    and "\<forall>j e. tc_entries tc j = Some e \<longrightarrow> \<not> isl (decodeBigInt (entry_base e) (entry_value e))"
  shows "decodeAll tc 1 n [] = None"
proof (cases "decodeAll tc 1 n []")
  case None
  then show ?thesis .
next
  case (Some y)
  from decodeAll_returns_bounded [OF Some] assms show ?thesis
    by simp
qed

lemma processSingleTestCase_never_returns:
  assumes "tc_keys tc = Some ks" "keys_n ks = Some n" "keys_k ks = Some k"
    and "2 ^ 53 \<le> n"
    and "\<forall>j e. tc_entries tc j = Some e \<longrightarrow> \<not> isl (decodeBigInt (entry_base e) (entry_value e))"
  shows "processSingleTestCase tc idx = None"
  using assms(1-3) decodeAll_never_returns [OF assms(4,5)]
  by (simp add: processSingleTestCase_def)

lemma processSingleTestCase_huge_n:
  "processSingleTestCase (mkCase (2 ^ 53) 1 []) 0 = None"
proof -
  have ks: "tc_keys (mkCase (2 ^ 53) 1 []) = Some \<lparr>keys_n = Some (2 ^ 53), keys_k = Some 1\<rparr>"
    by (simp add: mkCase_def)
  have es: "\<forall>j e. tc_entries (mkCase (2 ^ 53) 1 []) j = Some e
      \<longrightarrow> \<not> isl (decodeBigInt (entry_base e) (entry_value e))"
    by (simp add: mkCase_def)
  show ?thesis
    by (rule processSingleTestCase_never_returns [OF ks _ _ _ es, where n = "2 ^ 53" and k = 1])
      simp_all
qed

section \<open>Properties of the synthesizer\<close>

text \<open>
  Claim C4.  For every list of roots \<open>r\<^sub>1 \<dots> r\<^sub>m\<close>, also the empty one, the synthesizer
  returns a coefficient sequence, and its constant term (index 0) is
  \<open>(-1)\<^sup>m\<close> times the product of the roots; the empty product is 1.
\<close>

theorem buildPolynomialFromRoots_constant_term:
  "\<exists>cs. buildPolynomialFromRoots rs = Inr cs \<and> cs ! 0 = (- 1) ^ length rs * prod_list rs"
  by (simp add: build_fold nth0_fold_mulLinear)

text \<open>
  Claim C5.  For every list of \<open>m\<close> roots, also the empty one, the synthesizer returns
  exactly \<open>m + 1\<close> coefficients, and the one at index \<open>m\<close>, the last and leading one, is
  exactly 1; for the empty list the result is \<open>[1]\<close>.
\<close>

theorem buildPolynomialFromRoots_monic:
  "(\<exists>cs. buildPolynomialFromRoots rs = Inr cs \<and> length cs = length rs + 1
      \<and> cs ! length rs = 1 \<and> last cs = 1)
   \<and> buildPolynomialFromRoots [] = Inr [1]"
proof -
  let ?cs = "fold mulLinear rs [1]"
  have len: "length ?cs = length rs + 1"
    by (simp add: length_fold_mulLinear)
  have lst: "last ?cs = 1"
    by (simp add: last_fold_mulLinear)
  from len have "?cs \<noteq> []"
    by auto
  then have "?cs ! (length ?cs - 1) = 1"
    using lst by (simp add: last_conv_nth)
  with len have "?cs ! length rs = 1"
    by simp
  with len lst show ?thesis
    by (simp add: build_fold)
qed

text \<open>
  Claim C8.  Two lists of roots that are permutations of each other give the same
  coefficient sequence: the result does not depend on the order of the roots.
\<close>

theorem buildPolynomialFromRoots_permutation:
  "mset rs = mset rs' \<Longrightarrow> buildPolynomialFromRoots rs = buildPolynomialFromRoots rs'"
  using fold_mulLinear_mset [of rs rs' "[1]"] by (simp only: build_fold)

theorem buildPolynomialFromRoots_permutation_witness:
  "mset [4, 5 :: int] = mset [5, 4]
   \<and> buildPolynomialFromRoots [4, 5] = buildPolynomialFromRoots [5, 4]
   \<and> buildPolynomialFromRoots [5, 4] = Inr [20, - 9, 1]"
proof -
  have m: "mset [4, 5 :: int] = mset [5, 4]"
    by simp
  have "buildPolynomialFromRoots [5, 4] = Inr [20, - 9, 1]"
    by (simp add: build_fold mulLinear_def)
  with m buildPolynomialFromRoots_permutation [OF m] show ?thesis
    by simp
qed

text \<open>
  Claim C9.  The synthesizer leaves its input unchanged.  Called with a reference \<open>roots\<close>
  to an allocated array, it returns a reference \<open>res\<close> and a final store such that the
  array \<open>roots\<close>, like every array allocated before the call, holds the same elements in
  the same order as before; \<open>res\<close> is an array allocated during the call, so it is not
  \<open>roots\<close> and shares no element position with it; and \<open>res\<close> holds the coefficients that
  the function on lists computes from the elements of \<open>roots\<close>.
\<close>

theorem buildPolynomialFromRoots_st_frame:
  assumes "roots < length h"
  shows "\<exists>res h'. buildPolynomialFromRoots_st roots h = Inr (res, h')
     \<and> arr h' roots = arr h roots \<and> (\<forall>a<length h. arr h' a = arr h a)
     \<and> res \<noteq> roots \<and> length h \<le> res \<and> res < length h'
     \<and> Inr (arr h' res) = buildPolynomialFromRoots (arr h roots)"
proof -
  let ?h0 = "h @ [[1]]"
  have "\<exists>res h'. rootsLoop_st roots 0 (length h) ?h0 = Inr (res, h')
     \<and> length ?h0 \<le> length h' \<and> (\<forall>a<length ?h0. arr h' a = arr ?h0 a)
     \<and> res < length h' \<and> (res = length h \<or> length ?h0 \<le> res)
     \<and> arr h' res = fold mulLinear (drop 0 (arr ?h0 roots)) (arr ?h0 (length h))"
    using assms by (intro rootsLoop_st_spec) simp_all
  then obtain res h' where sp:
    "rootsLoop_st roots 0 (length h) ?h0 = Inr (res, h')"
    "\<forall>a<length ?h0. arr h' a = arr ?h0 a"
    "res < length h'" "res = length h \<or> length ?h0 \<le> res"
    "arr h' res = fold mulLinear (drop 0 (arr ?h0 roots)) (arr ?h0 (length h))"
    by blast
  have run: "buildPolynomialFromRoots_st roots h = Inr (res, h')"
    using sp(1) by (simp add: buildPolynomialFromRoots_st_def alloc_def)
  have old: "arr h' a = arr h a" if "a < length h" for a
    using sp(2) that by (simp add: arr_append_old)
  from sp(4) have fresh: "length h \<le> res"
    by auto
  with assms have neq: "res \<noteq> roots"
    by simp
  have "arr h' res = fold mulLinear (arr h roots) [1]"
    using sp(5) assms by (simp add: arr_append_old arr_append_new)
  then have val: "Inr (arr h' res) = buildPolynomialFromRoots (arr h roots)"
    by (simp add: build_fold)
  from run old [OF assms] old neq fresh sp(3) val show ?thesis
    by blast
qed

theorem buildPolynomialFromRoots_st_frame_witness:
  "(0::nat) < length [[4, 5 :: int]]
   \<and> buildPolynomialFromRoots_st 0 [[4, 5]] = Inr (3, [[4, 5], [1], [- 4, 1], [20, - 9, 1]])
   \<and> (\<exists>res h'. buildPolynomialFromRoots_st 0 [[4, 5]] = Inr (res, h')
        \<and> arr h' 0 = [4, 5] \<and> res \<noteq> 0 \<and> 1 \<le> res
        \<and> Inr (arr h' res) = buildPolynomialFromRoots [4, 5])"
proof -
  have v: "(0::nat) < length [[4, 5 :: int]]"
    by simp
  have e: "buildPolynomialFromRoots_st 0 [[4, 5]] = Inr (3, [[4, 5], [1], [- 4, 1], [20, - 9, 1]])"
    by code_simp
  have a: "arr [[4, 5 :: int]] 0 = [4, 5]" "length [[4, 5 :: int]] = 1"
    by (simp_all add: arr_def)
  from buildPolynomialFromRoots_st_frame [OF v] obtain res h'
    where "buildPolynomialFromRoots_st 0 [[4, 5]] = Inr (res, h')"
      "arr h' 0 = arr [[4, 5]] 0" "res \<noteq> 0" "length [[4, 5 :: int]] \<le> res"
      "Inr (arr h' res) = buildPolynomialFromRoots (arr [[4, 5]] 0)"
    by blast
  then have "\<exists>res h'. buildPolynomialFromRoots_st 0 [[4, 5]] = Inr (res, h')
        \<and> arr h' 0 = [4, 5] \<and> res \<noteq> 0 \<and> 1 \<le> res
        \<and> Inr (arr h' res) = buildPolynomialFromRoots [4, 5]"
    unfolding a by blast
  with v e show ?thesis
    by blast
qed

section \<open>Properties of the digit decoder\<close>

text \<open>
  Claim C2.  The claim asks that a base specifier that is not an integer in 2..36, such
  as \<open>"2.5"\<close>, is rejected with \<open>InvalidBase\<close>.  The source reads the base with
  \<^verbatim>\<open>parseInt\<close>, which stops at the first character that is not a decimal digit: the
  base \<open>"2.5"\<close> is read as 2, the integrality test that follows sees 2, and decoding
  proceeds in base 2.
\<close>

theorem decodeBigInt_fractional_base:
  "parseInt ''2.5'' = Some 2 \<and> decodeBigInt ''2.5'' ''101'' = Inr 5"
  by code_simp

text \<open>
  Claim C3.  For every base specifier that \<^verbatim>\<open>parseInt\<close> reads as \<open>b\<close> with
  \<open>2 \<le> b \<le> 36\<close>, and every digit string made of an optional sign followed by one or
  more characters whose digit values \<open>vs\<close> (0..9 for \<open>0\<close>..\<open>9\<close>, 10..35 for the letters
  in either case) are all below \<open>b\<close>, decoding succeeds with the exact signed positional
  value: the left-to-right fold \<open>acc \<mapsto> acc * b + v\<close> from 0 over the digit values, negated
  exactly when the sign is \<open>-\<close>, in unbounded integers.
\<close>

theorem decodeBigInt_exact:
  assumes "parseInt baseStr = Some b" "2 \<le> b" "b \<le> 36"
    and "sign = [] \<or> sign = ''+'' \<or> sign = ''-''"
    and "ds \<noteq> []" "map digitValue ds = map Some vs" "\<forall>v\<in>set vs. int v < b"
  shows "decodeBigInt baseStr (sign @ ds) =
     Inr ((if sign = ''-'' then - 1 else 1) * foldl (\<lambda>acc v. acc * b + int v) 0 vs)"
proof -
  from assms(5) obtain c cs where ds: "ds = c # cs"
    by (cases ds) auto
  have dig: "\<exists>v. digitValue x = Some v" if "x \<in> set ds" for x
  proof -
    from that have "digitValue x \<in> set (map digitValue ds)" by simp
    with assms(6) show ?thesis by auto
  qed
  from dig [of "last ds"] assms(5) have "\<not> isWhiteSpace (last ds)"
    by (auto dest: digitValue_not_white)
  with assms(5) have te: "trimEnd ds = ds"
    by (simp add: trimEnd_id)
  from dig [of c] ds obtain v0 where v0: "digitValue c = Some v0"
    by auto
  have loop: "decodeLoop b (toLowerCase ds) 0 = Inr (foldl (\<lambda>acc v. acc * b + int v) 0 vs)"
    unfolding toLowerCase_def by (rule decodeLoop_digits [OF assms(6,7)])
  have unsigned: "decodeBigInt baseStr ds = Inr (foldl (\<lambda>acc v. acc * b + int v) 0 vs)"
  proof -
    have "decodeBigInt baseStr (c # cs) = decodeLoop b (toLowerCase (c # trimEnd cs)) 0"
      using assms(1-3) digitValue_not_white [OF v0] digitValue_not_sign [OF v0]
      by (intro decodeBigInt_unsigned) auto
    moreover have "c # trimEnd cs = ds"
      using te ds digitValue_not_white [OF v0] by (simp add: trimEnd_Cons)
    ultimately show ?thesis
      using loop ds by simp
  qed
  from assms(4) consider "sign = []" | "sign = ''+''" | "sign = ''-''"
    by blast
  then show ?thesis
  proof cases
    case 1
    with unsigned show ?thesis by simp
  next
    case 2
    have "decodeBigInt baseStr (CHR ''+'' # ds) =
        map_sum id (\<lambda>acc. if CHR ''+'' = CHR ''-'' then - acc else acc)
          (decodeLoop b (toLowerCase (trimEnd ds)) 0)"
      using assms(1-3,5) te by (intro decodeBigInt_signed) auto
    with 2 te loop show ?thesis by simp
  next
    case 3
    have "decodeBigInt baseStr (CHR ''-'' # ds) =
        map_sum id (\<lambda>acc. if CHR ''-'' = CHR ''-'' then - acc else acc)
          (decodeLoop b (toLowerCase (trimEnd ds)) 0)"
      using assms(1-3,5) te by (intro decodeBigInt_signed) auto
    with 3 te loop show ?thesis by simp
  qed
qed

theorem decodeBigInt_exact_witness:
  "parseInt ''16'' = Some 16 \<and> map digitValue ''fF'' = map Some [15, 15]
   \<and> decodeBigInt ''16'' (''-'' @ ''fF'') = Inr (- 255)"
proof -
  have p: "parseInt ''16'' = Some 16"
    by code_simp
  have d: "map digitValue ''fF'' = map Some [15, 15]"
    by code_simp
  have r: "\<forall>v\<in>set [15, 15 :: nat]. int v < 16"
    by simp
  from decodeBigInt_exact [OF p _ _ _ _ d r, of "''-''"] p d show ?thesis
    by simp
qed

text \<open>
  Claim C6.  The calls \<open>decode(1, "0")\<close> and \<open>decode(37, "0")\<close> fail with
  \<open>InvalidBase\<close>, \<open>decode(10, "")\<close> and \<open>decode(10, "+")\<close> fail with \<open>EmptyValue\<close>, and
  \<open>decode(2, "2")\<close> fails with \<open>DigitOutOfRange\<close>.  A base given as a number reaches
  \<^verbatim>\<open>parseInt\<close> as its decimal text.
\<close>

theorem decodeBigInt_boundary_rejection:
  "decodeBigInt ''1'' ''0'' = Inl (InvalidBase ''1'')
   \<and> decodeBigInt ''37'' ''0'' = Inl (InvalidBase ''37'')
   \<and> decodeBigInt ''10'' '''' = Inl (EmptyValue ''Empty value string'')
   \<and> decodeBigInt ''10'' ''+'' = Inl (EmptyValue ''Value is only sign, no digits'')
   \<and> decodeBigInt ''2'' ''2'' = Inl (DigitOutOfRange CHR ''2'' 2)"
  by code_simp

text \<open>
  Claim C7, as stated, fails for a digit string with leading white space: \<open>" 1"\<close> decodes
  to 1 and has no sign, but in \<open>"- 1"\<close> the blank is no longer surrounding white space and
  is rejected as a digit.
\<close>

theorem decodeBigInt_sign_symmetry_counterexample:
  "decodeBigInt ''10'' '' 1'' = Inr 1
   \<and> decodeBigInt ''10'' (''-'' @ '' 1'') = Inl (InvalidDigitChar CHR '' '')"
  by code_simp

text \<open>
  Claim C7, amended.  For every digit string that decodes successfully and starts with a
  character that is neither white space nor a sign, the string with \<open>-\<close> put in front
  decodes successfully too, to the negated value.
\<close>

theorem decodeBigInt_sign_symmetry:
  assumes "decodeBigInt baseStr (c # cs) = Inr v"
    and "\<not> isWhiteSpace c" "c \<noteq> CHR ''+''" "c \<noteq> CHR ''-''"
  shows "decodeBigInt baseStr (CHR ''-'' # c # cs) = Inr (- v)"
proof -
  from decodeBigInt_Inr_base [OF assms(1)] obtain b
    where b: "parseInt baseStr = Some b" "2 \<le> b" "b \<le> 36"
    by blast
  have plain: "decodeLoop b (toLowerCase (c # trimEnd cs)) 0 = Inr v"
    using decodeBigInt_unsigned [OF b assms(2-4), of cs] assms(1) by simp
  have te: "trimEnd (c # cs) = c # trimEnd cs"
    using assms(2) by (rule trimEnd_Cons)
  have "decodeBigInt baseStr (CHR ''-'' # c # cs) =
      map_sum id (\<lambda>acc. if CHR ''-'' = CHR ''-'' then - acc else acc)
        (decodeLoop b (toLowerCase (trimEnd (c # cs))) 0)"
    using b te by (intro decodeBigInt_signed) auto
  with te plain show ?thesis by simp
qed

theorem decodeBigInt_sign_symmetry_witness:
  "decodeBigInt ''16'' ''ff '' = Inr 255 \<and> decodeBigInt ''16'' (CHR ''-'' # ''ff '') = Inr (- 255)"
proof -
  have h: "decodeBigInt ''16'' ''ff '' = Inr 255"
    by code_simp
  have w: "\<not> isWhiteSpace CHR ''f''"
    by code_simp
  from decodeBigInt_sign_symmetry [OF h w] h show ?thesis
    by simp
qed





section \<open>Properties of processing a test case\<close>

text \<open>
  Claim C1, as stated, fails: the loop decodes every entry present under the keys 1 to
  \<open>n\<close> before the roots are counted and cut to the first \<open>degree\<close>.  With \<open>k = 2\<close> the
  degree is 1 and the entry under key 2 is an extra one; a digit string or a base in it
  that does not decode makes the case fail, where the well-formed entry lets it succeed.
\<close>

theorem processSingleTestCase_extra_entries_counterexample:
  "processSingleTestCase (mkCase 2 2 [(1, ''10'', ''4''), (2, ''10'', ''5'')]) 0 =
     Some (Inr \<lparr>summary_n = 2, summary_k = 2, degree = 1, usedRoots = [4],
          coeffs_low_to_high = [- 4, 1], coeffs_high_to_low = [1, - 4], constant_c = - 4\<rparr>)
   \<and> processSingleTestCase (mkCase 2 2 [(1, ''10'', ''4''), (2, ''10'', ''x'')]) 0 =
     Some (Inl (DigitOutOfRange CHR ''x'' 10))
   \<and> processSingleTestCase (mkCase 2 2 [(1, ''10'', ''4''), (2, ''99'', ''5'')]) 0 =
     Some (Inl (InvalidBase ''99''))"
  by code_simp

text \<open>
  Claim C1, amended.  For a test case with numbers \<open>n < 2\<^sup>5\<^sup>3\<close> and \<open>k\<close>, every candidate
  entry (present under a key 1..\<open>n\<close>) is decoded, so a candidate that does not decode
  makes the case fail, also when it lies beyond the first \<open>degree = k - 1\<close> candidates.
  When all candidates decode, to the values \<open>vs\<close> in ascending order of the keys, and
  they number at least \<open>degree \<ge> 0\<close>, the case returns a summary, exactly the first
  \<open>degree\<close> values are passed to synthesis, and the coefficients are those of these
  values: the values of the further entries do not affect them.
\<close>

theorem processSingleTestCase_extra_entries:
  assumes "tc_keys tc = Some ks" "keys_n ks = Some n" "keys_k ks = Some k"
    and "n < 2 ^ 53"
  shows "(\<forall>e\<in>set (candidates tc n). \<forall>err.
            decodeBigInt (entry_base e) (entry_value e) = Inl err
            \<longrightarrow> (\<exists>err'. processSingleTestCase tc idx = Some (Inl err')))
     \<and> (map (\<lambda>e. decodeBigInt (entry_base e) (entry_value e)) (candidates tc n) = map Inr vs
          \<and> 0 \<le> k - 1 \<and> k - 1 \<le> int (length vs)
        \<longrightarrow> (\<exists>res. processSingleTestCase tc idx = Some (Inr res)
              \<and> usedRoots res = take (nat (k - 1)) vs
              \<and> Inr (coeffs_low_to_high res) = buildPolynomialFromRoots (take (nat (k - 1)) vs)))"
proof (intro conjI ballI allI impI)
  fix e err
  assume "e \<in> set (candidates tc n)"
    and "decodeBigInt (entry_base e) (entry_value e) = Inl err"
  then obtain err' where "decodeAll tc 1 n [] = Some (Inl err')"
    unfolding candidates_def using decodeAll_failure [OF assms(4), of 1 e tc err "[]"] by auto
  with assms(1-3) show "\<exists>err'. processSingleTestCase tc idx = Some (Inl err')"
    by (simp add: processSingleTestCase_def)
next
  assume a: "map (\<lambda>e. decodeBigInt (entry_base e) (entry_value e)) (candidates tc n) = map Inr vs
      \<and> 0 \<le> k - 1 \<and> k - 1 \<le> int (length vs)"
  then have all: "decodeAll tc 1 n [] = Some (Inr vs)"
    using decodeAll_success [OF assms(4), of 1 tc vs "[]"] by (simp add: candidates_def)
  from a have "length (map (\<lambda>e. decodeBigInt (entry_base e) (entry_value e)) (candidates tc n))
      = length (map (Inr :: int \<Rightarrow> error + int) vs)"
    by (simp only:)
  then have "length vs = length (candidates tc n)"
    by (simp only: length_map)
  also have "\<dots> \<le> length [1..n]"
    unfolding candidates_def by (rule length_map_filter_le)
  finally have "int (length vs) \<le> max 0 n"
    by simp
  with assms(4) have "int (length vs) < 2 ^ 53"
    by (cases "0 \<le> n") simp_all
  moreover from a have "0 \<le> k - 1" "k - 1 \<le> int (length vs)"
    by simp_all
  ultimately have "k - 1 < 2 ^ 53" "- (2 ^ 53) < k - 1"
    by simp_all
  then have "\<bar>k - 1\<bar> < 2 ^ 53"
    by (simp only: abs_less_iff) simp
  then have deg: "roundToDouble (k - 1) = k - 1"
    by (rule roundToDouble_small)
  from a have sl: "slice0 vs (k - 1) = take (nat (k - 1)) vs"
    by (simp add: slice0_take)
  let ?used = "take (nat (k - 1)) vs"
  obtain c cs where cs: "fold mulLinear ?used [1] = c # cs"
    using length_fold_mulLinear [of ?used "[1]"] by (cases "fold mulLinear ?used [1]") auto
  from a have enough: "\<not> int (length vs) < k - 1"
    by simp
  show "\<exists>res. processSingleTestCase tc idx = Some (Inr res)
      \<and> usedRoots res = ?used
      \<and> Inr (coeffs_low_to_high res) = buildPolynomialFromRoots ?used"
    using assms(1-3) all sl enough cs deg
    by (simp add: processSingleTestCase_def Let_def build_fold)
qed

theorem processSingleTestCase_extra_entries_witness:
  "(\<exists>err. processSingleTestCase (mkCase 2 2 [(1, ''10'', ''4''), (2, ''10'', ''x'')]) 0 = Some (Inl err))
   \<and> (\<exists>res. processSingleTestCase (mkCase 3 3 [(1, ''10'', ''2''), (2, ''2'', ''11''), (3, ''16'', ''5'')]) 0 = Some (Inr res)
        \<and> usedRoots res = [2, 3]
        \<and> Inr (coeffs_low_to_high res) = buildPolynomialFromRoots [2, 3])
   \<and> buildPolynomialFromRoots [2, 3] = Inr [6, - 5, 1]"
proof -
  let ?bad = "mkCase 2 2 [(1, ''10'', ''4''), (2, ''10'', ''x'')]"
  let ?good = "mkCase 3 3 [(1, ''10'', ''2''), (2, ''2'', ''11''), (3, ''16'', ''5'')]"
  let ?e = "\<lparr>entry_base = ''10'', entry_value = ''x''\<rparr>"
  have kb: "tc_keys ?bad = Some \<lparr>keys_n = Some 2, keys_k = Some 2\<rparr>"
    and kg: "tc_keys ?good = Some \<lparr>keys_n = Some 3, keys_k = Some 3\<rparr>"
    by (simp_all add: mkCase_def)
  have mem: "?e \<in> set (candidates ?bad 2)"
    by code_simp
  have err: "decodeBigInt (entry_base ?e) (entry_value ?e) = Inl (DigitOutOfRange CHR ''x'' 10)"
    by code_simp
  have dec: "map (\<lambda>e. decodeBigInt (entry_base e) (entry_value e)) (candidates ?good 3)
      = map Inr [2, 3, 5]"
    by code_simp
  have kn: "keys_n \<lparr>keys_n = Some 2, keys_k = Some 2\<rparr> = Some 2"
    "keys_k \<lparr>keys_n = Some 2, keys_k = Some 2\<rparr> = Some 2"
    "keys_n \<lparr>keys_n = Some 3, keys_k = Some 3\<rparr> = Some 3"
    "keys_k \<lparr>keys_n = Some 3, keys_k = Some 3\<rparr> = Some 3"
    by simp_all
  have small: "(2::int) < 2 ^ 53" "(3::int) < 2 ^ 53"
    by simp_all
  from processSingleTestCase_extra_entries [OF kb kn(1,2) small(1), where idx = 0 and vs = "[]"]
  have "\<forall>e\<in>set (candidates ?bad 2). \<forall>err.
      decodeBigInt (entry_base e) (entry_value e) = Inl err
      \<longrightarrow> (\<exists>err'. processSingleTestCase ?bad 0 = Some (Inl err'))"
    by (rule conjunct1)
  with mem err have 1: "\<exists>err. processSingleTestCase ?bad 0 = Some (Inl err)"
    by blast
  from processSingleTestCase_extra_entries [OF kg kn(3,4) small(2), where idx = 0 and vs = "[2, 3, 5]"] dec
  have 2: "\<exists>res. processSingleTestCase ?good 0 = Some (Inr res)
        \<and> usedRoots res = [2, 3]
        \<and> Inr (coeffs_low_to_high res) = buildPolynomialFromRoots [2, 3]"
    by simp
  have 3: "buildPolynomialFromRoots [2, 3] = Inr [6, - 5, 1]"
    by code_simp
  from 1 2 3 show ?thesis
    by blast
qed

end
